theory Spec2Isabelle
  imports Main
begin

section \<open>Boolean networks, states and spaces\<close>

text \<open>
  The preliminaries of the repository fix the vocabulary: a Boolean network \<open>F\<close> over \<open>n\<close>
  variables is a family of update functions \<open>f_i : B^n \<rightarrow> B\<close>; a state is a vector of
  \<open>B^n\<close>; a space is a vector over \<open>{0, 1, *}\<close>, where \<open>*\<close> marks a free variable.
  A state is a \<open>bool list\<close>, a space a \<open>bool option list\<close> (\<open>None\<close> is \<open>*\<close>), and a
  network the list of its update functions. A well-formed input has
  \<open>length S = length F\<close> and \<open>length x = length F\<close>.
\<close>

type_synonym state = "bool list"
type_synonym space = "bool option list"
type_synonym network = "(state \<Rightarrow> bool) list"

text \<open>\<open>x \<in> S\<close> iff \<open>x_i = S_i\<close> for all \<open>i\<close> where \<open>S_i\<close> is fixed.\<close>

definition in_space :: "space \<Rightarrow> state \<Rightarrow> bool" where
  "in_space S x = list_all2 (\<lambda>s v. case s of None \<Rightarrow> True | Some b \<Rightarrow> v = b) S x"

text \<open>The states of a space: its \<open>2^k\<close> completions, \<open>k\<close> the number of free variables.\<close>

fun states_of :: "space \<Rightarrow> state list" where
  "states_of [] = [[]]"
| "states_of (None # S) = map ((#) False) (states_of S) @ map ((#) True) (states_of S)"
| "states_of (Some b # S) = map ((#) b) (states_of S)"

text \<open>
  Asynchronous update: \<open>x \<rightarrow> y\<close> iff \<open>x \<noteq> y\<close> and \<open>y = x[i := f_i(x)]\<close> for some \<open>i\<close>.
  \<open>succs F x\<close> lists the successors of \<open>x\<close> in the state-transition graph.
\<close>

definition succs :: "network \<Rightarrow> state \<Rightarrow> state list" where
  "succs F x =
     map (\<lambda>(i, f). x[i := f x])
       (filter (\<lambda>(i, f). i < length x \<and> f x \<noteq> x ! i) (enumerate 0 F))"

definition stg :: "network \<Rightarrow> (state \<times> state) set" where
  "stg F = {(x, y). y \<in> set (succs F x)}"

text \<open>
  A space \<open>S\<close> is a trap space if for every state \<open>x \<in> S\<close> and every \<open>y\<close> with
  \<open>x \<rightarrow> y\<close> we have \<open>y \<in> S\<close>.
\<close>

definition trap_space :: "network \<Rightarrow> space \<Rightarrow> bool" where
  "trap_space F S = (\<forall>x \<in> set (states_of S). \<forall>y \<in> set (succs F x). in_space S y)"

section \<open>Percolation\<close>

text \<open>
  Modelled from the spec: the body of \<open>propagate(network, S)\<close> is not part of the sources
  (only its header and the remark that it is value propagation). The data model defines
  percolation as the iterated fixed point of: for any free variable \<open>i\<close> such that \<open>f_i\<close>
  restricted to the completions of \<open>S\<close> is constant \<open>b\<close>, extend \<open>S\<close> with \<open>i \<mapsto> b\<close>.
\<close>

definition const_on :: "(state \<Rightarrow> bool) \<Rightarrow> space \<Rightarrow> bool \<Rightarrow> bool" where
  "const_on f S b = list_all (\<lambda>x. f x = b) (states_of S)"

definition perc_var :: "network \<Rightarrow> space \<Rightarrow> nat \<times> bool option \<Rightarrow> bool option" where
  "perc_var F S p =
     (case snd p of
        Some b \<Rightarrow> Some b
      | None \<Rightarrow>
          if fst p < length F then
            (if const_on (F ! fst p) S True then Some True
             else if const_on (F ! fst p) S False then Some False
             else None)
          else None)"

definition perc_step :: "network \<Rightarrow> space \<Rightarrow> space" where
  "perc_step F S = map (perc_var F S) (enumerate 0 S)"

definition free_count :: "space \<Rightarrow> nat" where
  "free_count S = length (filter (\<lambda>s. s = None) S)"

lemma perc_step_length [simp]: "length (perc_step F S) = length S"
  by (simp add: perc_step_def)

lemma perc_step_nth:
  "i < length S \<Longrightarrow> perc_step F S ! i = perc_var F S (i, S ! i)"
  by (simp add: perc_step_def nth_enumerate_eq)

lemma perc_step_keeps_fixed:
  "i < length S \<Longrightarrow> S ! i = Some b \<Longrightarrow> perc_step F S ! i = Some b"
  by (simp add: perc_step_nth perc_var_def)

lemma perc_step_refines:
  "list_all2 (\<lambda>s t. s = None \<or> t = s) S (perc_step F S)"
  unfolding list_all2_conv_all_nth
proof (intro conjI allI impI)
  show "length S = length (perc_step F S)" by simp
next
  fix i assume "i < length S"
  then show "S ! i = None \<or> perc_step F S ! i = S ! i"
    by (cases "S ! i") (simp_all add: perc_step_keeps_fixed)
qed

lemma refines_free_count_le:
  "list_all2 (\<lambda>s t. s = None \<or> t = s) S T \<Longrightarrow> free_count T \<le> free_count S"
  by (induction rule: list_all2_induct) (auto simp: free_count_def)

lemma refines_free_count_less:
  "list_all2 (\<lambda>s t. s = None \<or> t = s) S T \<Longrightarrow> T \<noteq> S \<Longrightarrow> free_count T < free_count S"
proof (induction rule: list_all2_induct)
  case Nil
  then show ?case by simp
next
  case (Cons s S t T)
  from Cons.hyps(2) have le: "free_count T \<le> free_count S"
    by (rule refines_free_count_le)
  show ?case
  proof (cases "T = S")
    case True
    with Cons.prems Cons.hyps(1) have "s = None" "t \<noteq> None" by auto
    with True show ?thesis by (simp add: free_count_def)
  next
    case False
    with Cons.IH have "free_count T < free_count S" by simp
    with Cons.hyps(1) show ?thesis by (auto simp: free_count_def)
  qed
qed

lemma perc_step_decreases:
  "perc_step F S \<noteq> S \<Longrightarrow> free_count (perc_step F S) < free_count S"
  by (rule refines_free_count_less [OF perc_step_refines])

text \<open>
  Modelled from the spec: \<open>propagate(network, S)\<close>, the value propagation (percolation)
  of \<open>S\<close>: the step above, repeated until no change. Each repetition that changes the
  space fixes a free variable, which is why the recursion ends.
\<close>

function propagate :: "network \<Rightarrow> space \<Rightarrow> space" where
  "propagate F S = (let S' = perc_step F S in if S' = S then S else propagate F S')"
  by pat_completeness auto
termination
  by (relation "measure (\<lambda>(F, S). free_count S)") (auto simp: perc_step_decreases)

declare propagate.simps [simp del]

lemma percolate_fixed: "perc_step F S = S \<Longrightarrow> propagate F S = S"
  by (subst propagate.simps) simp

lemma percolate_unfold: "perc_step F S \<noteq> S \<Longrightarrow> propagate F S = propagate F (perc_step F S)"
  by (subst propagate.simps) (simp add: Let_def)

lemma perc_step_percolate: "perc_step F (propagate F S) = propagate F S"
proof (induction F S rule: propagate.induct)
  case (1 F S)
  show ?case
  proof (cases "perc_step F S = S")
    case True
    then show ?thesis by (simp add: percolate_fixed)
  next
    case False
    with "1.IH" show ?thesis by (simp add: percolate_unfold)
  qed
qed

text \<open>
  C2 (P1, percolation idempotence): for every network \<open>F\<close> and every space \<open>S\<close>,
  percolating the percolated space changes nothing: \<open>perc_F(perc_F(S)) = perc_F(S)\<close>.
\<close>

theorem percolate_idempotent: "propagate F (propagate F S) = propagate F S"
  by (rule percolate_fixed) (rule perc_step_percolate)

section \<open>Trap spaces under percolation\<close>

lemma in_space_length: "in_space S x \<Longrightarrow> length x = length S"
  by (simp add: in_space_def list_all2_lengthD)

lemma in_space_nth:
  "in_space S x \<longleftrightarrow> length x = length S \<and> (\<forall>i<length S. \<forall>b. S ! i = Some b \<longrightarrow> x ! i = b)"
  unfolding in_space_def list_all2_conv_all_nth
  by (auto split: option.splits)

lemma states_of_iff: "x \<in> set (states_of S) \<longleftrightarrow> in_space S x"
proof (induction S arbitrary: x rule: states_of.induct)
  case 1
  then show ?case by (simp add: in_space_def)
next
  case (2 S)
  then show ?case by (cases x) (auto simp: in_space_def)
next
  case (3 b S)
  then show ?case by (cases x) (auto simp: in_space_def)
qed

lemma succs_iff:
  "y \<in> set (succs F x) \<longleftrightarrow>
     (\<exists>i. i < length F \<and> i < length x \<and> (F ! i) x \<noteq> x ! i \<and> y = x[i := (F ! i) x])"
  unfolding succs_def
  by (force simp: in_set_enumerate_eq split: if_splits)

lemma const_on_iff: "const_on f S b \<longleftrightarrow> (\<forall>x. in_space S x \<longrightarrow> f x = b)"
  by (auto simp: const_on_def list_all_iff states_of_iff)

lemma perc_step_sub: "in_space (perc_step F S) x \<Longrightarrow> in_space S x"
  unfolding in_space_nth
  by (auto simp: perc_step_keeps_fixed)

lemma perc_step_new:
  assumes "i < length S" "S ! i = None" "perc_step F S ! i = Some b"
  shows "i < length F \<and> const_on (F ! i) S b"
  using assms by (auto simp: perc_step_nth perc_var_def split: if_splits)

lemma trap_space_perc_step:
  assumes "trap_space F S"
  shows "trap_space F (perc_step F S)"
  unfolding trap_space_def
proof (intro ballI)
  fix x y
  assume "x \<in> set (states_of (perc_step F S))" and y: "y \<in> set (succs F x)"
  then have x': "in_space (perc_step F S) x" by (simp add: states_of_iff)
  then have xS: "in_space S x" by (rule perc_step_sub)
  with assms y have yS: "in_space S y"
    by (auto simp: trap_space_def states_of_iff)
  from y obtain i where i: "i < length F" "i < length x" "y = x[i := (F ! i) x]"
    by (auto simp: succs_iff)
  show "in_space (perc_step F S) y"
    unfolding in_space_nth
  proof (intro conjI allI impI)
    show "length y = length (perc_step F S)"
      using yS by (simp add: in_space_length)
  next
    fix j b
    assume j: "j < length (perc_step F S)" and b: "perc_step F S ! j = Some b"
    then have jS: "j < length S" by simp
    show "y ! j = b"
    proof (cases "S ! j")
      case (Some c)
      with jS b have "c = b" by (simp add: perc_step_keeps_fixed)
      with Some jS yS show ?thesis by (simp add: in_space_nth)
    next
      case None
      from perc_step_new [OF jS None b] have c: "const_on (F ! j) S b" by simp
      show ?thesis
      proof (cases "j = i")
        case True
        with c xS i show ?thesis by (simp add: const_on_iff)
      next
        case False
        with i have "y ! j = x ! j" by simp
        with x' j b show ?thesis by (simp add: in_space_nth)
      qed
    qed
  qed
qed

lemma trap_space_percolate:
  "trap_space F S \<Longrightarrow> trap_space F (propagate F S)"
proof (induction F S rule: propagate.induct)
  case (1 F S)
  show ?case
  proof (cases "perc_step F S = S")
    case True
    with "1.prems" show ?thesis by (simp add: percolate_fixed)
  next
    case False
    with "1.IH" "1.prems" show ?thesis
      by (simp add: percolate_unfold trap_space_perc_step)
  qed
qed

lemma funpow_fixed: "f x = x \<Longrightarrow> (f ^^ n) x = x"
  by (induction n) simp_all

lemma percolate_funpow_ge:
  "free_count S \<le> n \<Longrightarrow> (perc_step F ^^ n) S = propagate F S"
proof (induction F S arbitrary: n rule: propagate.induct)
  case (1 F S)
  show ?case
  proof (cases "perc_step F S = S")
    case True
    then show ?thesis by (simp add: percolate_fixed funpow_fixed)
  next
    case False
    then have less: "free_count (perc_step F S) < free_count S"
      by (rule perc_step_decreases)
    with "1.prems" obtain m where n: "n = Suc m" and m: "free_count (perc_step F S) \<le> m"
      by (cases n) auto
    from "1.IH" [OF refl False m] have "(perc_step F ^^ m) (perc_step F S) = propagate F (perc_step F S)" .
    with n False show ?thesis
      by (simp add: funpow_swap1 percolate_unfold)
  qed
qed

lemma percolate_funpow: "propagate F S = (perc_step F ^^ free_count S) S"
  by (simp add: percolate_funpow_ge)

definition F_cx :: network where
  "F_cx = [\<lambda>x. \<not> x ! 1, \<lambda>x. True]"

text \<open>
  C7, as amended: for every network \<open>F\<close> and every space \<open>S\<close>, percolation terminates
  (it reaches its fixed point after at most as many passes as \<open>S\<close> has free variables),
  and if the input \<open>S\<close> is a trap space then so is the result (which, being a fixed point
  of percolation, is then also a trap space in the stricter sense that asks for
  \<open>perc_F(S) = S\<close>). The converse direction of the claim does not hold.
\<close>

theorem percolate_terminates_preserves_trap:
  "propagate F S = (perc_step F ^^ free_count S) S
   \<and> perc_step F (propagate F S) = propagate F S
   \<and> (trap_space F S \<longrightarrow> trap_space F (propagate F S))"
  by (simp add: percolate_funpow_ge perc_step_percolate trap_space_percolate)

theorem percolate_terminates_preserves_trap_witness:
  "trap_space F_cx [None, None] \<and> trap_space F_cx (propagate F_cx [None, None])"
proof -
  have h: "trap_space F_cx [None, None]" by code_simp
  with percolate_terminates_preserves_trap [of F_cx "[None, None]"] show ?thesis by blast
qed

text \<open>
  C7 as stated fails: in the network \<open>f_A = \<not>B, f_B = 1\<close> the space \<open>{A = 0}\<close> is not a
  trap space (from \<open>A = 0, B = 0\<close> the variable \<open>A\<close> switches on), but it percolates
  to \<open>{A = 0, B = 1}\<close>, which is one.
\<close>

theorem percolate_trap_iff_counterexample:
  "\<not> (trap_space F_cx (propagate F_cx [Some False, None]) \<longleftrightarrow> trap_space F_cx [Some False, None])
   \<and> propagate F_cx [Some False, None] = [Some False, Some True]
   \<and> trap_space F_cx [Some False, Some True]
   \<and> \<not> trap_space F_cx [Some False, None]"
  by code_simp

section \<open>Symbolic reachability and the exact filter\<close>

text \<open>
  Modelled from the spec: the sources give \<open>symbolic_forward_reachability\<close> and
  \<open>symbolic_backward_reachability\<close> by their headers only: the symbolic set of all
  states reachable from \<open>pivot\<close> within the given \<open>space\<close>, and of all states that
  can reach \<open>pivot\<close> within it. The symbolic kernel computes reachability by saturation:
  one-step successors (predecessors) inside the space are added until nothing new appears.
  A symbolic set is a set of states; while it is being saturated it is the list of the
  states found so far.
\<close>

definition stg_in :: "network \<Rightarrow> space \<Rightarrow> (state \<times> state) set" where
  "stg_in F S = {(x, y). in_space S x \<and> in_space S y \<and> y \<in> set (succs F x)}"

definition post_in :: "network \<Rightarrow> space \<Rightarrow> state list \<Rightarrow> state list" where
  "post_in F S R = filter (in_space S) (concat (map (succs F) (filter (in_space S) R)))"

definition pre_in :: "network \<Rightarrow> space \<Rightarrow> state list \<Rightarrow> state list" where
  "pre_in F S R =
     filter (\<lambda>x. list_ex (\<lambda>y. y \<in> set R \<and> in_space S y) (succs F x)) (states_of S)"

definition fresh :: "state list \<Rightarrow> state list \<Rightarrow> state list \<Rightarrow> state list" where
  "fresh U R ys = remdups (filter (\<lambda>y. y \<in> set U \<and> y \<notin> set R) ys)"

lemma fresh_set: "set (fresh U R ys) = (set ys \<inter> set U) - set R"
  by (auto simp: fresh_def)

lemma fresh_decreases:
  assumes "fresh U R ys \<noteq> []"
  shows "card (set U - (set R \<union> set (fresh U R ys))) < card (set U - set R)"
proof (rule psubset_card_mono)
  show "finite (set U - set R)" by simp
next
  from assms obtain y where "y \<in> set (fresh U R ys)"
    by (cases "fresh U R ys") auto
  then have "y \<in> set U - set R" "y \<notin> set U - (set R \<union> set (fresh U R ys))"
    by (auto simp: fresh_set)
  then show "set U - (set R \<union> set (fresh U R ys)) \<subset> set U - set R"
    by auto
qed

function saturate :: "(state list \<Rightarrow> state list) \<Rightarrow> state list \<Rightarrow> state list \<Rightarrow> state list" where
  "saturate step U R =
     (let new = fresh U R (step R) in if new = [] then R else saturate step U (R @ new))"
  by pat_completeness auto
termination
  by (relation "measure (\<lambda>(step, U, R). card (set U - set R))") (auto simp: fresh_decreases)

declare saturate.simps [simp del]

lemma saturate_correct:
  assumes step: "\<And>R y. y \<in> set (step R) \<and> y \<in> set U \<longleftrightarrow> (\<exists>x \<in> set R. (x, y) \<in> E)"
  shows "set (saturate step U R) = E\<^sup>* `` set R"
  using assms
proof (induction step U R rule: saturate.induct)
  case (1 step U R)
  note step = "1.prems"
  show ?case
  proof (cases "fresh U R (step R) = []")
    case True
    have closed: "y \<in> set R" if "x \<in> set R" "(x, y) \<in> E" for x y
    proof -
      from that step have "y \<in> set (step R) \<inter> set U" by blast
      with True show ?thesis
        using fresh_set [of U R "step R"] by auto
    qed
    have "y \<in> set R" if "(x, y) \<in> E\<^sup>*" "x \<in> set R" for x y
      using that by (induction rule: rtrancl_induct) (auto intro: closed)
    then have "E\<^sup>* `` set R = set R" by auto
    with True show ?thesis by (subst saturate.simps) simp
  next
    case False
    have sub: "set (fresh U R (step R)) \<subseteq> E `` set R"
      using step by (auto simp: fresh_set)
    have "saturate step U R = saturate step U (R @ fresh U R (step R))"
      using False by (subst saturate.simps) (simp add: Let_def)
    also have "set \<dots> = E\<^sup>* `` set (R @ fresh U R (step R))"
      using "1.IH" [OF refl False step] .
    also have "\<dots> = E\<^sup>* `` set R"
    proof
      show "E\<^sup>* `` set (R @ fresh U R (step R)) \<subseteq> E\<^sup>* `` set R"
      proof
        fix z assume "z \<in> E\<^sup>* `` set (R @ fresh U R (step R))"
        then obtain y where y: "y \<in> set R \<union> set (fresh U R (step R))" "(y, z) \<in> E\<^sup>*"
          by auto
        show "z \<in> E\<^sup>* `` set R"
        proof (cases "y \<in> set R")
          case True
          with y show ?thesis by auto
        next
          case False
          with y sub obtain x where "x \<in> set R" "(x, y) \<in> E" by auto
          with y have "(x, z) \<in> E\<^sup>*" by (meson converse_rtrancl_into_rtrancl)
          with \<open>x \<in> set R\<close> show ?thesis by auto
        qed
      qed
    next
      show "E\<^sup>* `` set R \<subseteq> E\<^sup>* `` set (R @ fresh U R (step R))" by auto
    qed
    finally show ?thesis .
  qed
qed

text \<open>
  Modelled from the spec: the two reachability procedures, as the saturation of the
  pivot under the successors and under the predecessors inside the space.
\<close>

definition symbolic_forward_reachability :: "network \<Rightarrow> state \<Rightarrow> space \<Rightarrow> state set" where
  "symbolic_forward_reachability F pivot S = set (saturate (post_in F S) (states_of S) [pivot])"

definition symbolic_backward_reachability :: "network \<Rightarrow> state \<Rightarrow> space \<Rightarrow> state set" where
  "symbolic_backward_reachability F pivot S = set (saturate (pre_in F S) (states_of S) [pivot])"

lemma post_in_step:
  "y \<in> set (post_in F S R) \<and> y \<in> set (states_of S) \<longleftrightarrow> (\<exists>x \<in> set R. (x, y) \<in> stg_in F S)"
  by (auto simp: post_in_def stg_in_def states_of_iff)

lemma pre_in_step:
  "x \<in> set (pre_in F S R) \<and> x \<in> set (states_of S) \<longleftrightarrow> (\<exists>y \<in> set R. (y, x) \<in> (stg_in F S)\<inverse>)"
  by (auto simp: pre_in_def stg_in_def states_of_iff list_ex_iff)

lemma forward_reachability_eq:
  "symbolic_forward_reachability F pivot S = {y. (pivot, y) \<in> (stg_in F S)\<^sup>*}"
  unfolding symbolic_forward_reachability_def
  by (subst saturate_correct [where E = "stg_in F S"]) (auto simp: post_in_step)

lemma backward_reachability_eq:
  "symbolic_backward_reachability F pivot S = {x. (x, pivot) \<in> (stg_in F S)\<^sup>*}"
  unfolding symbolic_backward_reachability_def
  by (subst saturate_correct [where E = "(stg_in F S)\<inverse>"]) (auto simp: pre_in_step rtrancl_converse)

text \<open>
  An attractor is a bottom (terminal) strongly connected component of the state-transition
  graph: a non-empty set of states of the network in which every state reaches every
  other, and which no transition leaves (so that no larger set is strongly connected).
\<close>

definition attractor :: "network \<Rightarrow> state set \<Rightarrow> bool" where
  "attractor F A =
     (A \<noteq> {} \<and> (\<forall>x \<in> A. length x = length F)
      \<and> (\<forall>x \<in> A. \<forall>y \<in> A. (x, y) \<in> (stg F)\<^sup>*)
      \<and> (\<forall>x \<in> A. \<forall>y. (x, y) \<in> stg F \<longrightarrow> y \<in> A))"

text \<open>
  The loop over the candidates at the end of \<open>attractors(F, F_plus, S)\<close>:
  \<^verbatim>\<open>
  while N.len() > 0:
    pivot = N.pick()
    bwd = symbolic_backward_reachability(F, pivot, S)
    fwd = symbolic_forward_reachability(F, pivot, S)
    N = N.minus(bwd)
    if fwd.minus(bwd).is_empty():
      non_trap_attractors.append(fwd)
  \<close>
  \<open>N\<close> is the list of the candidates and \<open>N.pick()\<close> takes its head. Each attractor
  \<open>fwd\<close> is returned together with its pivot, the seed (representative) of the attractor.
\<close>

fun pivot_loop :: "network \<Rightarrow> space \<Rightarrow> state list \<Rightarrow> (state \<times> state set) list" where
  "pivot_loop F S [] = []"
| "pivot_loop F S (pivot # N) =
     (let bwd = symbolic_backward_reachability F pivot S;
          fwd = symbolic_forward_reachability F pivot S;
          N' = filter (\<lambda>c. c \<notin> bwd) N
      in (if fwd - bwd = {} then [(pivot, fwd)] else []) @ pivot_loop F S N')"

lemma attractor_reach:
  "attractor F A \<longleftrightarrow> A \<noteq> {} \<and> (\<forall>x \<in> A. length x = length F \<and> (stg F)\<^sup>* `` {x} = A)"
proof
  assume att: "attractor F A"
  have "(stg F)\<^sup>* `` {x} = A" if x: "x \<in> A" for x
  proof
    have "y \<in> A" if "(x, y) \<in> (stg F)\<^sup>*" for y
      using that x att by (induction rule: rtrancl_induct) (auto simp: attractor_def)
    then show "(stg F)\<^sup>* `` {x} \<subseteq> A" by blast
    show "A \<subseteq> (stg F)\<^sup>* `` {x}" using att x by (auto simp: attractor_def)
  qed
  with att show "A \<noteq> {} \<and> (\<forall>x \<in> A. length x = length F \<and> (stg F)\<^sup>* `` {x} = A)"
    by (simp add: attractor_def)
next
  assume r: "A \<noteq> {} \<and> (\<forall>x \<in> A. length x = length F \<and> (stg F)\<^sup>* `` {x} = A)"
  have "(x, y) \<in> (stg F)\<^sup>*" if "x \<in> A" "y \<in> A" for x y
    using that r by blast
  moreover have "y \<in> A" if "x \<in> A" "(x, y) \<in> stg F" for x y
  proof -
    from that have "y \<in> (stg F)\<^sup>* `` {x}" by blast
    with that r show ?thesis by blast
  qed
  ultimately show "attractor F A" using r unfolding attractor_def by blast
qed

lemma stg_in_sub: "stg_in F S \<subseteq> stg F"
  by (auto simp: stg_in_def stg_def)


lemma trap_space_step:
  "trap_space F S \<Longrightarrow> in_space S x \<Longrightarrow> (x, y) \<in> stg F \<Longrightarrow> in_space S y"
  by (auto simp: trap_space_def stg_def states_of_iff)

lemma trap_space_reach:
  assumes "trap_space F S" "in_space S x" "(x, y) \<in> (stg F)\<^sup>*"
  shows "in_space S y \<and> (x, y) \<in> (stg_in F S)\<^sup>*"
  using assms(3)
proof (induction rule: rtrancl_induct)
  case base
  then show ?case using assms(2) by simp
next
  case (step y z)
  then have z: "in_space S z" using assms(1) by (auto intro: trap_space_step)
  with step have "(y, z) \<in> stg_in F S" by (simp add: stg_in_def stg_def)
  with step z show ?case by (auto intro: rtrancl_into_rtrancl)
qed

lemma stg_in_reach_in:
  "(x, y) \<in> (stg_in F S)\<^sup>* \<Longrightarrow> in_space S x \<Longrightarrow> in_space S y"
  by (induction rule: rtrancl_induct) (auto simp: stg_in_def)

lemma stg_in_reach_stg: "(x, y) \<in> (stg_in F S)\<^sup>* \<Longrightarrow> (x, y) \<in> (stg F)\<^sup>*"
  using rtrancl_mono [OF stg_in_sub] by blast

lemma forward_global:
  "trap_space F S \<Longrightarrow> in_space S x \<Longrightarrow> symbolic_forward_reachability F x S = (stg F)\<^sup>* `` {x}"
  by (auto simp: forward_reachability_eq dest: trap_space_reach stg_in_reach_stg)

lemma backward_global:
  "trap_space F S \<Longrightarrow> in_space S y \<Longrightarrow>
     y \<in> symbolic_backward_reachability F x S \<longleftrightarrow> (y, x) \<in> (stg F)\<^sup>*"
  by (auto simp: backward_reachability_eq dest: trap_space_reach stg_in_reach_stg)

lemma pivot_attractor:
  assumes trap: "trap_space F S" and len: "length F = length S" and x: "in_space S x"
    and sub: "symbolic_forward_reachability F x S - symbolic_backward_reachability F x S = {}"
  shows "attractor F (symbolic_forward_reachability F x S)"
proof -
  let ?A = "symbolic_forward_reachability F x S"
  have A: "?A = (stg F)\<^sup>* `` {x}" using trap x by (rule forward_global)
  have "(stg F)\<^sup>* `` {z} = ?A \<and> length z = length F" if z: "z \<in> ?A" for z
  proof -
    from z A have xz: "(x, z) \<in> (stg F)\<^sup>*" by simp
    with trap x have zS: "in_space S z" by (auto dest: trap_space_reach)
    from z sub have "z \<in> symbolic_backward_reachability F x S" by auto
    with trap zS have zx: "(z, x) \<in> (stg F)\<^sup>*" by (simp add: backward_global)
    have "(stg F)\<^sup>* `` {z} = (stg F)\<^sup>* `` {x}"
      using xz zx by (auto intro: rtrancl_trans)
    with A zS len show ?thesis by (simp add: in_space_length)
  qed
  moreover have "x \<in> ?A" using A by simp
  ultimately show ?thesis unfolding attractor_reach by blast
qed

lemma attractor_pivot:
  assumes trap: "trap_space F S" and x: "in_space S x"
    and att: "attractor F A" and xA: "x \<in> A"
  shows "symbolic_forward_reachability F x S - symbolic_backward_reachability F x S = {}"
    and "symbolic_forward_reachability F x S = A"
proof -
  from att xA have A: "(stg F)\<^sup>* `` {x} = A" by (simp add: attractor_reach)
  with trap x show eq: "symbolic_forward_reachability F x S = A" by (simp add: forward_global)
  have "y \<in> symbolic_backward_reachability F x S" if "y \<in> A" for y
  proof -
    from that att have "(stg F)\<^sup>* `` {y} = A" by (simp add: attractor_reach)
    with xA have yx: "(y, x) \<in> (stg F)\<^sup>*" by auto
    from that A have "(x, y) \<in> (stg F)\<^sup>*" by auto
    with trap x have "in_space S y" by (auto dest: trap_space_reach)
    with trap yx show ?thesis by (simp add: backward_global)
  qed
  with eq show "symbolic_forward_reachability F x S - symbolic_backward_reachability F x S = {}"
    by auto
qed

lemma pivot_loop_subset: "fst ` set (pivot_loop F S N) \<subseteq> set N"
proof (induction F S N rule: pivot_loop.induct)
  case (1 F S)
  then show ?case by simp
next
  case (2 F S pivot N)
  from "2.IH" [OF refl refl refl]
  have "fst ` set (pivot_loop F S (filter (\<lambda>c. c \<notin> symbolic_backward_reachability F pivot S) N))
          \<subseteq> set N" by auto
  then show ?case by (auto simp: Let_def)
qed

definition F_osc :: network where
  "F_osc = [\<lambda>x. \<not> x ! 0]"

text \<open>
  C3: in the exact symbolic filter, for a candidate \<open>x\<close> inside the node's (trap) space
  \<open>S\<close>, \<open>x\<close> seeds an attractor if and only if \<open>fwd(x) \ bwd(x)\<close> is empty; processing
  the pivot \<open>x\<close> removes the whole of \<open>bwd(x)\<close> from the candidate set, so that no state
  of \<open>bwd(x)\<close> is returned as a seed by the rest of the loop.
\<close>

theorem pivot_loop_exact_filter:
  assumes "trap_space F S" "length F = length S" "in_space S x"
  shows "(symbolic_forward_reachability F x S - symbolic_backward_reachability F x S = {}
            \<longleftrightarrow> (\<exists>A. attractor F A \<and> x \<in> A))
    \<and> pivot_loop F S (x # N) =
           (if symbolic_forward_reachability F x S - symbolic_backward_reachability F x S = {}
            then [(x, symbolic_forward_reachability F x S)] else [])
           @ pivot_loop F S (filter (\<lambda>c. c \<notin> symbolic_backward_reachability F x S) N)
    \<and> (\<forall>s \<in> fst ` set (pivot_loop F S (filter (\<lambda>c. c \<notin> symbolic_backward_reachability F x S) N)).
           s \<notin> symbolic_backward_reachability F x S)"
proof (intro conjI)
  show "(symbolic_forward_reachability F x S - symbolic_backward_reachability F x S = {}
            \<longleftrightarrow> (\<exists>A. attractor F A \<and> x \<in> A))"
  proof
    assume e: "symbolic_forward_reachability F x S - symbolic_backward_reachability F x S = {}"
    have "x \<in> symbolic_forward_reachability F x S"
      by (simp add: forward_reachability_eq)
    with pivot_attractor [OF assms e] show "\<exists>A. attractor F A \<and> x \<in> A" by blast
  next
    assume "\<exists>A. attractor F A \<and> x \<in> A"
    then show "symbolic_forward_reachability F x S - symbolic_backward_reachability F x S = {}"
      using attractor_pivot(1) [OF assms(1,3)] by blast
  qed
  show "pivot_loop F S (x # N) =
           (if symbolic_forward_reachability F x S - symbolic_backward_reachability F x S = {}
            then [(x, symbolic_forward_reachability F x S)] else [])
           @ pivot_loop F S (filter (\<lambda>c. c \<notin> symbolic_backward_reachability F x S) N)"
    by (simp add: Let_def)
  show "\<forall>s \<in> fst ` set (pivot_loop F S (filter (\<lambda>c. c \<notin> symbolic_backward_reachability F x S) N)).
           s \<notin> symbolic_backward_reachability F x S"
    using pivot_loop_subset [of F S "filter (\<lambda>c. c \<notin> symbolic_backward_reachability F x S) N"]
    by auto
qed

theorem pivot_loop_exact_filter_witness:
  "trap_space F_osc [None] \<and> length F_osc = length [None :: bool option] \<and> in_space [None] [False]
   \<and> symbolic_forward_reachability F_osc [False] [None]
       - symbolic_backward_reachability F_osc [False] [None] = {}
   \<and> (\<exists>A. attractor F_osc A \<and> [False] \<in> A)
   \<and> pivot_loop F_osc [None] [[False], [True]] = [([False], {[False], [True]})]"
proof -
  have h1: "trap_space F_osc [None]" by code_simp
  have h2: "length F_osc = length [None :: bool option]" by code_simp
  have h3: "in_space [None] [False]" by code_simp
  have e: "symbolic_forward_reachability F_osc [False] [None]
       - symbolic_backward_reachability F_osc [False] [None] = {}" by code_simp
  have l: "pivot_loop F_osc [None] [[False], [True]] = [([False], {[False], [True]})]" by code_simp
  from pivot_loop_exact_filter [OF h1 h2 h3, of "[[True]]"] e
  have "\<exists>A. attractor F_osc A \<and> [False] \<in> A" by blast
  with h1 h2 h3 e l show ?thesis by blast
qed

section \<open>Candidate pruning\<close>

subsection \<open>Errors\<close>

text \<open>
  Exceptions are values. The variants are those of the error taxonomy; the exception the
  sources show, \<open>pypint.tools.PintProcessError\<close> (the command \<open>pint-export\<close> returned a
  non-zero exit status), is an \<open>OracleFailure\<close> of the tool \<open>pint\<close>.
\<close>

datatype error =
    BudgetExceeded string nat
  | OracleFailure string string
  | Timeout string
  | Inconsistent
  | MalformedInput

definition pint_export_failure :: error where
  "pint_export_failure =
     OracleFailure ''pint'' ''Command pint-export -l nbjson returned non-zero exit status 2''"

subsection \<open>The pruning entry point\<close>

text \<open>
  \<open>detect_motif_avoidant_attractors\<close> in its latest form (with \<open>is_in_an_mts\<close>):
  \<^verbatim>\<open>
  if len(candidates) == 0:
      return []
  if len(candidates) == 1 and is_in_an_mts:
      return candidates
  candidates = _preprocess_candidates(network, candidates,
                                      terminal_restriction_space, max_iterations)
  if len(candidates) == 0:
      return []
  if len(candidates) == 1 and is_in_an_mts:
      return candidates
  return _filter_candidates(petri_net, candidates, terminal_restriction_space)
  \<close>
  Its two helpers \<open>_preprocess_candidates\<close> and \<open>_filter_candidates\<close> are the first two
  parameters of the model; a helper that raises returns \<open>Inl\<close>, and since the function
  has no handler the error is its result.
\<close>

definition detect_motif_avoidant_attractors ::
  "('n \<Rightarrow> state list \<Rightarrow> 't \<Rightarrow> nat \<Rightarrow> error + state list)
     \<Rightarrow> ('p \<Rightarrow> state list \<Rightarrow> 't \<Rightarrow> error + state list)
     \<Rightarrow> 'n \<Rightarrow> 'p \<Rightarrow> state list \<Rightarrow> 't \<Rightarrow> nat \<Rightarrow> bool \<Rightarrow> error + state list" where
  "detect_motif_avoidant_attractors preprocess filter_c
       network petri_net candidates terminal_restriction_space max_iterations is_in_an_mts =
     (if length candidates = 0 then Inr []
      else if length candidates = 1 \<and> is_in_an_mts then Inr candidates
      else
        case preprocess network candidates terminal_restriction_space max_iterations of
          Inl e \<Rightarrow> Inl e
        | Inr candidates' \<Rightarrow>
            if length candidates' = 0 then Inr []
            else if length candidates' = 1 \<and> is_in_an_mts then Inr candidates'
            else filter_c petri_net candidates' terminal_restriction_space)"

text \<open>
  Modelled from the spec: the body of \<open>_preprocess_candidates\<close> is not part of the sources.
  Phase 1: for each candidate state \<open>x\<close>, run up to \<open>K\<close> asynchronous steps with random
  variable scheduling, re-checking after each step whether the current state lies in the
  terminal restriction space \<open>T\<close>. If a candidate leaves \<open>T\<close> or reaches another candidate,
  it is pruned; the pruning rule: if the simulation visits candidate \<open>y\<close>, all candidates
  visited earlier on the trajectory are pruned.

  The random choices are the parameter \<open>sched\<close>: the variables drawn while simulating
  \<open>x\<close>. \<open>walk T live cur trajectory\<close> follows one trajectory; \<open>live\<close> are the states that
  are still candidates and \<open>cur\<close> is the candidate visited last. Visiting another
  candidate prunes \<open>cur\<close> (the candidates visited before \<open>cur\<close> were pruned when \<open>cur\<close>
  was visited); leaving \<open>T\<close> prunes \<open>cur\<close> and ends the walk.
\<close>

fun simulate :: "network \<Rightarrow> state \<Rightarrow> nat list \<Rightarrow> state list" where
  "simulate F x [] = []"
| "simulate F x (i # sched) =
     (let y = (if i < length F \<and> i < length x then x[i := (F ! i) x] else x)
      in y # simulate F y sched)"

fun walk :: "state set \<Rightarrow> state list \<Rightarrow> state \<Rightarrow> state list \<Rightarrow> state list" where
  "walk T live cur [] = live"
| "walk T live cur (s # trajectory) =
     (if s \<notin> T then removeAll cur live
      else if s \<noteq> cur \<and> s \<in> set live then walk T (removeAll cur live) s trajectory
      else walk T live cur trajectory)"

fun preprocess_loop ::
  "(state \<Rightarrow> nat list) \<Rightarrow> network \<Rightarrow> state set \<Rightarrow> nat \<Rightarrow> state list \<Rightarrow> state list \<Rightarrow> state list" where
  "preprocess_loop sched F T K live [] = live"
| "preprocess_loop sched F T K live (x # rest) =
     preprocess_loop sched F T K
       (if x \<in> set live then walk T live x (simulate F x (take K (sched x))) else live) rest"

definition preprocess_candidates ::
  "(state \<Rightarrow> nat list) \<Rightarrow> network \<Rightarrow> state list \<Rightarrow> state set \<Rightarrow> nat \<Rightarrow> error + state list" where
  "preprocess_candidates sched network candidates trs max_iterations =
     Inr (preprocess_loop sched network trs max_iterations candidates candidates)"

text \<open>
  Modelled from the spec: the body of \<open>_filter_candidates\<close> is not part of the sources.
  Phase 2 submits the remaining candidates to a reachability oracle, behind one interface:
  the symbolic oracle computes \<open>fwd(x) \<inter> \<not>bwd(x)\<close> (if empty, \<open>x\<close> seeds an attractor) and
  \<open>bwd(x)\<close> is subtracted from the candidate set; the Petri-net unfolding oracle answers
  ``is the target marking reachable from the source marking?'', and both return the same
  Boolean. So the filter is the pivot loop above in which the test of \<open>fwd(x) \<inter> \<not>bwd(x)\<close>
  is the oracle's answer to the query with source \<open>x\<close> and target \<open>\<not>bwd(x)\<close>. The Petri
  net of a node encodes the network restricted to the node's space; it is the pair of
  the two. The filter does not catch what the oracle raises.
\<close>

fun filter_candidates_pint ::
  "(network \<times> space \<Rightarrow> state \<Rightarrow> state set \<Rightarrow> error + bool)
     \<Rightarrow> network \<times> space \<Rightarrow> state list \<Rightarrow> state set \<Rightarrow> error + state list" where
  "filter_candidates_pint Pint_reachability petri_net [] T = Inr []"
| "filter_candidates_pint Pint_reachability petri_net (x # rest) T =
     (let bwd = symbolic_backward_reachability (fst petri_net) x (snd petri_net) in
      case Pint_reachability petri_net x (- bwd) of
        Inl e \<Rightarrow> Inl e
      | Inr reaches \<Rightarrow>
          (case filter_candidates_pint Pint_reachability petri_net
                  (filter (\<lambda>c. c \<notin> bwd) rest) T of
             Inl e \<Rightarrow> Inl e
           | Inr kept \<Rightarrow> Inr (if reaches then kept else x # kept)))"

text \<open>
  The symbolic oracle behind the same interface: a state of the target is reachable from
  the source inside the space.
\<close>

definition symbolic_reachability :: "network \<times> space \<Rightarrow> state \<Rightarrow> state set \<Rightarrow> error + bool" where
  "symbolic_reachability petri_net source target =
     Inr (symbolic_forward_reachability (fst petri_net) source (snd petri_net) \<inter> target \<noteq> {})"

text \<open>
  The run the sources report: \<open>_filter_candidates\<close> is invoked, and \<open>_Pint_reachability\<close>
  raises \<open>PintProcessError\<close> while it loads the model
  (\<open>pint_model = InMemoryModel(petri_net_as_automata_network(petri_net))\<close>), before any
  query is answered.
\<close>

definition Pint_reachability_failing :: "network \<times> space \<Rightarrow> state \<Rightarrow> state set \<Rightarrow> error + bool" where
  "Pint_reachability_failing petri_net source target = Inl pint_export_failure"

text \<open>
  The call site in the succession diagram:
  \<^verbatim>\<open>
  terminal_restriction_space = ~state_list_to_bdd(stable_motifs)
                               & state_list_to_bdd([self.G.nodes[sd_node]['fixed_vars']])
  attractors = detect_motif_avoidant_attractors(
      reduced_network, petri_net, candidates, terminal_restriction_space,
      AVOIDANCE_ITERATIONS, is_in_an_mts = (len(stable_motifs) == 0))
  \<close>
  The terminal restriction space is the node's space without its stable motifs (the
  spaces of the node's children). This is \<open>prune(candidates, space, children)\<close>.
\<close>

definition terminal_restriction_space :: "space \<Rightarrow> space list \<Rightarrow> state set" where
  "terminal_restriction_space fixed_vars stable_motifs =
     {x \<in> set (states_of fixed_vars). list_all (\<lambda>M. \<not> in_space M x) stable_motifs}"

definition prune ::
  "('n \<Rightarrow> state list \<Rightarrow> state set \<Rightarrow> nat \<Rightarrow> error + state list)
     \<Rightarrow> ('p \<Rightarrow> state list \<Rightarrow> state set \<Rightarrow> error + state list)
     \<Rightarrow> 'n \<Rightarrow> 'p \<Rightarrow> nat \<Rightarrow> state list \<Rightarrow> space \<Rightarrow> space list \<Rightarrow> error + state list" where
  "prune preprocess filter_c network petri_net AVOIDANCE_ITERATIONS
       candidates space stable_motifs =
     detect_motif_avoidant_attractors preprocess filter_c
       network petri_net candidates (terminal_restriction_space space stable_motifs)
       AVOIDANCE_ITERATIONS (length stable_motifs = 0)"

subsection \<open>Attractors covered by a candidate list\<close>



text \<open>
  Two small networks: \<open>f_A = f_B = (A \<Leftrightarrow> B)\<close>; and \<open>f_A = \<not>A \<and> B\<close>, \<open>f_B = (A \<Leftrightarrow> B)\<close>,
  whose only trap space is the whole space, with the attractor \<open>{00, 01, 11}\<close> and the
  transient state \<open>10\<close>.
\<close>

definition F_ab :: network where
  "F_ab = [\<lambda>x. x ! 0 = x ! 1, \<lambda>x. x ! 0 = x ! 1]"



text \<open>
  Modelled from the spec: the trap-space oracle is not part of the sources. The trap
  spaces of a network are enumerated by their definition, and so are the minimal ones (a
  trap space with no other trap space inside it) and the maximal ones within a space \<open>S\<close>
  (a trap space properly inside \<open>S\<close> with no other such trap space around it).
\<close>

fun all_spaces :: "nat \<Rightarrow> space list" where
  "all_spaces 0 = [[]]"
| "all_spaces (Suc n) =
     concat (map (\<lambda>S. [None # S, Some False # S, Some True # S]) (all_spaces n))"

definition sub_space :: "space \<Rightarrow> space \<Rightarrow> bool" where
  "sub_space S T = list_all2 (\<lambda>s t. t = None \<or> s = t) S T"

definition trap_spaces :: "network \<Rightarrow> space list" where
  "trap_spaces F = filter (trap_space F) (all_spaces (length F))"

definition minimal_trap_spaces :: "network \<Rightarrow> space list" where
  "minimal_trap_spaces F =
     filter (\<lambda>M. \<not> list_ex (\<lambda>M'. M' \<noteq> M \<and> sub_space M' M) (trap_spaces F)) (trap_spaces F)"

definition maximal_trap_spaces_within :: "network \<Rightarrow> space \<Rightarrow> space list" where
  "maximal_trap_spaces_within F S =
     (let inside = filter (\<lambda>M. M \<noteq> S \<and> sub_space M S) (trap_spaces F)
      in filter (\<lambda>M. \<not> list_ex (\<lambda>M'. M' \<noteq> M \<and> sub_space M M') inside) inside)"

subsection \<open>Attractors inside a trap space\<close>





lemma states_of_nonempty: "states_of S \<noteq> []"
  by (induction S rule: states_of.induct) auto




lemma detect_cases:
  "detect_motif_avoidant_attractors pre flt n p cands T K mts =
     (if length cands = 0 \<or> (length cands = 1 \<and> mts) then Inr cands
      else case pre n cands T K of
             Inl e \<Rightarrow> Inl e
           | Inr cs \<Rightarrow> if length cs = 0 \<or> (length cs = 1 \<and> mts) then Inr cs else flt p cs T)"
  by (auto simp: detect_motif_avoidant_attractors_def split: sum.splits)


text \<open>
  With the symbolic oracle, the filter behind the oracle interface is the pivot loop: the
  two agree on every candidate list.
\<close>

lemma filter_candidates_pint_symbolic:
  "filter_candidates_pint symbolic_reachability (F, S) cs T = Inr (map fst (pivot_loop F S cs))"
proof (induction F S cs rule: pivot_loop.induct)
  case (1 F S)
  then show ?case by simp
next
  case (2 F S pivot N)
  let ?bwd = "symbolic_backward_reachability F pivot S"
  let ?fwd = "symbolic_forward_reachability F pivot S"
  have e: "(?fwd \<inter> - ?bwd \<noteq> {}) = (?fwd - ?bwd \<noteq> {})" by blast
  have q: "symbolic_reachability (F, S) pivot (- ?bwd) = Inr (?fwd - ?bwd \<noteq> {})"
    by (simp add: symbolic_reachability_def e)
  from "2.IH" [OF refl refl refl]
  have "filter_candidates_pint symbolic_reachability (F, S) (filter (\<lambda>c. c \<notin> ?bwd) N) T
          = Inr (map fst (pivot_loop F S (filter (\<lambda>c. c \<notin> ?bwd) N)))" .
  then show ?case by (simp add: Let_def q)
qed







subsection \<open>The claims about the pruner\<close>







text \<open>
  C4: the two boundary cases. With an empty candidate list the pruner returns the empty
  list; with exactly one candidate and no children it returns that candidate unchanged.
  Both hold whatever the preprocessing and the reachability filter would do (also when
  they would raise): neither is invoked.
\<close>

theorem prune_boundary_cases:
  "prune pre flt network petri_net K [] space children = Inr []
   \<and> prune pre flt network petri_net K [c] space [] = Inr [c]"
  by (simp add: prune_def detect_motif_avoidant_attractors_def)

text \<open>
  C6, as amended: candidate pruning has no handler. It returns an error exactly when it is
  not in a boundary case and the preprocessing raises that error, or the preprocessing
  leaves candidates outside the boundary cases and the reachability filter raises that
  error; the error reaches the caller unchanged.
\<close>

theorem prune_error_propagation:
  "prune pre flt network petri_net K candidates space children = Inl e \<longleftrightarrow>
     \<not> (length candidates = 0 \<or> (length candidates = 1 \<and> length children = 0))
     \<and> (pre network candidates (terminal_restriction_space space children) K = Inl e
        \<or> (\<exists>cs. pre network candidates (terminal_restriction_space space children) K = Inr cs
              \<and> \<not> (length cs = 0 \<or> (length cs = 1 \<and> length children = 0))
              \<and> flt petri_net cs (terminal_restriction_space space children) = Inl e))"
  unfolding prune_def detect_cases
  by (auto split: sum.splits)

text \<open>
  C6 as stated fails: when the Petri-net unfolding oracle fails (as in the reported run,
  where \<open>pint-export\<close> returned a non-zero exit status), the oracle failure, which is
  neither \<open>Inconsistent\<close> nor \<open>MalformedInput\<close>, is the result of candidate pruning.
\<close>

theorem prune_oracle_failure_counterexample:
  "prune (preprocess_candidates (\<lambda>_. [0, 1])) (filter_candidates_pint Pint_reachability_failing)
      F_ab (F_ab, [None, None]) 2 [[False, False]] [None, None] [[Some True, Some True]]
        = Inl pint_export_failure
   \<and> pint_export_failure \<noteq> Inconsistent \<and> pint_export_failure \<noteq> MalformedInput"
  by code_simp

section \<open>The network with two source nodes\<close>

text \<open>
  The network \<open>A, A\<close>; \<open>B, B\<close>; \<open>C, A & B\<close>; \<open>D, D | A\<close>, variables in the order
  \<open>A, B, C, D\<close>, and the four combinations of values of its source nodes \<open>A\<close> and \<open>B\<close>.
\<close>

definition F4 :: network where
  "F4 = [\<lambda>x. x ! 0, \<lambda>x. x ! 1, \<lambda>x. x ! 0 \<and> x ! 1, \<lambda>x. x ! 3 \<or> x ! 0]"

definition source_combinations :: "space list" where
  "source_combinations =
     [[Some False, Some False, None, None], [Some False, Some True, None, None],
      [Some True, Some False, None, None], [Some True, Some True, None, None]]"

text \<open>
  Modelled from the spec: the construction of the succession diagram is not part of the
  sources. A diagram is the list of its nodes; of a node's attributes, \<open>id\<close>, \<open>space\<close> and
  \<open>child_ids\<close> (\<open>None\<close> if unexpanded, else a list) are kept. A leaf is a node with
  \<open>child_ids = []\<close>. \<open>valid_sd F sd\<close> collects what the spec requires of every diagram
  of \<open>F\<close>:
  \<^item> node ids are distinct, and the root \<open>perc_F\<close> of the free space is a node;
  \<^item> every node's space is equal to \<open>perc_F\<close> of itself and is closed under the
    transitions of \<open>F\<close> (P2);
  \<^item> every edge \<open>p \<rightarrow> c\<close> leads to a node with \<open>c.space\<close> strictly inside \<open>p.space\<close>, and
    the children of a node are pairwise incomparable;
  \<^item> if a node has \<open>child_ids = []\<close>, its space is a minimal trap space of the network;
  \<^item> the union of the leaf nodes' spaces contains every minimal trap space (P3).
\<close>

record sd_node =
  node_id :: nat
  node_space :: space
  child_ids :: "nat list option"

definition sd_root :: "network \<Rightarrow> space" where
  "sd_root F = propagate F (replicate (length F) None)"

definition leaves :: "sd_node list \<Rightarrow> sd_node list" where
  "leaves sd = filter (\<lambda>m. child_ids m = Some []) sd"

definition children_of :: "sd_node list \<Rightarrow> sd_node \<Rightarrow> sd_node list" where
  "children_of sd m =
     (case child_ids m of None \<Rightarrow> [] | Some cs \<Rightarrow> filter (\<lambda>k. node_id k \<in> set cs) sd)"

definition valid_sd :: "network \<Rightarrow> sd_node list \<Rightarrow> bool" where
  "valid_sd F sd \<longleftrightarrow>
     distinct (map node_id sd)
   \<and> list_ex (\<lambda>m. node_space m = sd_root F) sd
   \<and> list_all (\<lambda>m. length (node_space m) = length F
                   \<and> propagate F (node_space m) = node_space m
                   \<and> trap_space F (node_space m)) sd
   \<and> list_all (\<lambda>m. case child_ids m of None \<Rightarrow> True
                   | Some cs \<Rightarrow> list_all (\<lambda>c. c \<in> set (map node_id sd)) cs) sd
   \<and> list_all (\<lambda>m. list_all (\<lambda>k. node_space k \<noteq> node_space m
                                 \<and> sub_space (node_space k) (node_space m))
                     (children_of sd m)) sd
   \<and> list_all (\<lambda>m. list_all (\<lambda>k. list_all (\<lambda>k'. node_id k = node_id k'
                                   \<or> \<not> sub_space (node_space k) (node_space k'))
                                 (children_of sd m))
                     (children_of sd m)) sd
   \<and> list_all (\<lambda>m. node_space m \<in> set (minimal_trap_spaces F)) (leaves sd)
   \<and> list_all (\<lambda>M. list_all (\<lambda>x. list_ex (\<lambda>m. in_space (node_space m) x) (leaves sd))
                     (states_of M))
       (minimal_trap_spaces F)"

text \<open>
  A diagram of the network: the root, the four percolated source combinations below it,
  and the two fixed points inside each of \<open>{A=0,B=0,C=0}\<close> and \<open>{A=0,B=1,C=0}\<close>.
\<close>

definition sd_source_nodes :: "sd_node list" where
  "sd_source_nodes =
     [\<lparr>node_id = 0, node_space = [None, None, None, None], child_ids = Some [1, 2, 3, 4]\<rparr>,
      \<lparr>node_id = 1, node_space = [Some False, Some False, Some False, None], child_ids = Some [5, 6]\<rparr>,
      \<lparr>node_id = 2, node_space = [Some False, Some True, Some False, None], child_ids = Some [7, 8]\<rparr>,
      \<lparr>node_id = 3, node_space = [Some True, Some False, Some False, Some True], child_ids = Some []\<rparr>,
      \<lparr>node_id = 4, node_space = [Some True, Some True, Some True, Some True], child_ids = Some []\<rparr>,
      \<lparr>node_id = 5, node_space = [Some False, Some False, Some False, Some False], child_ids = Some []\<rparr>,
      \<lparr>node_id = 6, node_space = [Some False, Some False, Some False, Some True], child_ids = Some []\<rparr>,
      \<lparr>node_id = 7, node_space = [Some False, Some True, Some False, Some False], child_ids = Some []\<rparr>,
      \<lparr>node_id = 8, node_space = [Some False, Some True, Some False, Some True], child_ids = Some []\<rparr>]"

lemma fixed_space_eq:
  "in_space L x \<Longrightarrow> list_all (\<lambda>s. s \<noteq> None) L \<Longrightarrow> L = map Some x"
  unfolding in_space_def
  by (induction L x rule: list_all2_induct) (auto split: option.splits)

lemma F4_minimal_trap_spaces:
  "set (minimal_trap_spaces F4) =
     {[Some False, Some False, Some False, Some False], [Some False, Some True, Some False, Some False],
      [Some False, Some False, Some False, Some True], [Some True, Some False, Some False, Some True],
      [Some False, Some True, Some False, Some True], [Some True, Some True, Some True, Some True]}"
  by code_simp

lemma F4_minimal_fixed:
  "M \<in> set (minimal_trap_spaces F4) \<Longrightarrow> list_all (\<lambda>s. s \<noteq> None) M"
  unfolding F4_minimal_trap_spaces by auto

lemma F4_root: "sd_root F4 = [None, None, None, None]"
  by code_simp

lemma valid_sd_nodes:
  assumes v: "valid_sd F4 sd"
  shows "insert (sd_root F4) (set (minimal_trap_spaces F4)) \<subseteq> node_space ` set sd"
proof -
  from v obtain r where "r \<in> set sd" "node_space r = sd_root F4"
    unfolding valid_sd_def list_ex_iff by blast
  then have root: "sd_root F4 \<in> node_space ` set sd" by (auto intro: rev_image_eqI)
  have "M \<in> node_space ` set sd" if M: "M \<in> set (minimal_trap_spaces F4)" for M
  proof -
    from states_of_nonempty [of M] obtain x where x: "x \<in> set (states_of M)"
      by (cases "states_of M") auto
    then have "in_space M x" by (simp add: states_of_iff)
    with F4_minimal_fixed [OF M] have Mx: "M = map Some x" by (intro fixed_space_eq)
    from v M x obtain m where m: "m \<in> set (leaves sd)" "in_space (node_space m) x"
      unfolding valid_sd_def list_all_iff list_ex_iff by blast
    from v m(1) have "node_space m \<in> set (minimal_trap_spaces F4)"
      unfolding valid_sd_def list_all_iff by blast
    then have "list_all (\<lambda>s. s \<noteq> None) (node_space m)" by (rule F4_minimal_fixed)
    with m(2) have "node_space m = map Some x" by (intro fixed_space_eq)
    with Mx have "node_space m = M" by simp
    moreover from m(1) have "m \<in> set sd" by (simp add: leaves_def)
    ultimately show ?thesis by (auto intro: rev_image_eqI)
  qed
  with root show ?thesis by blast
qed

lemma length_ge_card_spaces: "X \<subseteq> node_space ` set sd \<Longrightarrow> card X \<le> length sd"
proof -
  assume X: "X \<subseteq> node_space ` set sd"
  then have "card X \<le> card (node_space ` set sd)" by (intro card_mono) auto
  also have "... \<le> card (set sd)" by (intro card_image_le) auto
  also have "... \<le> length sd" by (rule card_length)
  finally show ?thesis .
qed

lemma valid_sd_size:
  assumes v: "valid_sd F4 sd"
  shows "7 \<le> length sd"
proof -
  have "card (insert (sd_root F4) (set (minimal_trap_spaces F4))) = 7"
    unfolding F4_root F4_minimal_trap_spaces by simp
  with length_ge_card_spaces [OF valid_sd_nodes [OF v]] show ?thesis by simp
qed

lemma F4_percolated_combinations:
  "map (propagate F4) source_combinations =
       [[Some False, Some False, Some False, None], [Some False, Some True, Some False, None],
        [Some True, Some False, Some False, Some True], [Some True, Some True, Some True, Some True]]"
  by code_simp

lemma valid_sd_size_with_combinations:
  assumes v: "valid_sd F4 sd"
    and c: "list_all (\<lambda>C. C \<in> node_space ` set sd) (map (propagate F4) source_combinations)"
  shows "9 \<le> length sd"
proof -
  let ?X = "set (map (propagate F4) source_combinations)
              \<union> insert (sd_root F4) (set (minimal_trap_spaces F4))"
  from c valid_sd_nodes [OF v] have "?X \<subseteq> node_space ` set sd"
    by (auto simp: list_all_iff)
  then have "card ?X \<le> length sd" by (rule length_ge_card_spaces)
  moreover have "?X =
      {[None, None, None, None],
       [Some False, Some False, Some False, None], [Some False, Some True, Some False, None],
       [Some False, Some False, Some False, Some False], [Some False, Some True, Some False, Some False],
       [Some False, Some False, Some False, Some True], [Some True, Some False, Some False, Some True],
       [Some False, Some True, Some False, Some True], [Some True, Some True, Some True, Some True]}"
    unfolding F4_root F4_minimal_trap_spaces F4_percolated_combinations by auto
  then have "card ?X = 9" by simp
  ultimately show ?thesis by simp
qed

lemma sd_source_nodes_valid: "valid_sd F4 sd_source_nodes"
  by code_simp

text \<open>
  C8 as stated fails: no succession diagram of this network has 5 nodes. Every diagram
  that meets the invariants has the root, which is not a minimal trap space, and one leaf
  for each of the six minimal trap spaces; the diagram \<open>sd_source_nodes\<close>, which has the
  four percolated source combinations below the root, meets the invariants and has 9
  nodes.
\<close>

theorem source_nodes_size_counterexample:
  "\<not> (\<exists>sd. valid_sd F4 sd \<and> length sd = 5)
   \<and> valid_sd F4 sd_source_nodes \<and> length sd_source_nodes = 9"
proof -
  have "\<not> (\<exists>sd. valid_sd F4 sd \<and> length sd = 5)"
    using valid_sd_size by fastforce
  moreover have "length sd_source_nodes = 9" by (simp add: sd_source_nodes_def)
  ultimately show ?thesis using sd_source_nodes_valid by simp
qed

text \<open>
  C8, as amended: for this network the root of the succession diagram is \<open>perc_F\<close> of the
  free space, which is the free space itself, and the maximal trap spaces inside it are
  \<open>{A=0}\<close>, \<open>{A=1}\<close>, \<open>{B=0}\<close>, \<open>{B=1}\<close> and \<open>{D=1}\<close>. After percolation the four source
  combinations are \<open>{A=0,B=0,C=0}\<close>, \<open>{A=0,B=1,C=0}\<close>, \<open>{A=1,B=0,C=0,D=1}\<close> and
  \<open>{A=1,B=1,C=1,D=1}\<close>: trap spaces closed under percolation and strictly inside the
  root. The network has six minimal trap spaces, its fixed points. Every succession
  diagram that meets the invariants has at least 7 nodes, and at least 9 nodes if the
  four percolated source combinations are among its nodes.
\<close>

theorem source_nodes_diagram_size:
  "sd_root F4 = [None, None, None, None]
   \<and> set (maximal_trap_spaces_within F4 (sd_root F4)) =
       {[Some False, None, None, None], [Some True, None, None, None],
        [None, Some False, None, None], [None, Some True, None, None],
        [None, None, None, Some True]}
   \<and> map (propagate F4) source_combinations =
       [[Some False, Some False, Some False, None], [Some False, Some True, Some False, None],
        [Some True, Some False, Some False, Some True], [Some True, Some True, Some True, Some True]]
   \<and> list_all (\<lambda>C. trap_space F4 C \<and> propagate F4 C = C \<and> C \<noteq> sd_root F4
                    \<and> sub_space C (sd_root F4))
       (map (propagate F4) source_combinations)
   \<and> set (minimal_trap_spaces F4) =
       {[Some False, Some False, Some False, Some False], [Some False, Some True, Some False, Some False],
        [Some False, Some False, Some False, Some True], [Some True, Some False, Some False, Some True],
        [Some False, Some True, Some False, Some True], [Some True, Some True, Some True, Some True]}
   \<and> (\<forall>sd. valid_sd F4 sd \<longrightarrow> 7 \<le> length sd)
   \<and> (\<forall>sd. valid_sd F4 sd
            \<and> list_all (\<lambda>C. C \<in> node_space ` set sd) (map (propagate F4) source_combinations)
          \<longrightarrow> 9 \<le> length sd)"
proof -
  have a: "set (maximal_trap_spaces_within F4 (sd_root F4)) =
       {[Some False, None, None, None], [Some True, None, None, None],
        [None, Some False, None, None], [None, Some True, None, None],
        [None, None, None, Some True]}"
    by code_simp
  have b: "list_all (\<lambda>C. trap_space F4 C \<and> propagate F4 C = C \<and> C \<noteq> sd_root F4
                    \<and> sub_space C (sd_root F4))
       (map (propagate F4) source_combinations)"
    by code_simp
  from F4_root a F4_percolated_combinations b F4_minimal_trap_spaces
    valid_sd_size valid_sd_size_with_combinations
  show ?thesis by (intro conjI allI impI) auto
qed

theorem source_nodes_diagram_size_witness:
  "valid_sd F4 sd_source_nodes
   \<and> list_all (\<lambda>C. C \<in> node_space ` set sd_source_nodes) (map (propagate F4) source_combinations)
   \<and> 7 \<le> length sd_source_nodes \<and> 9 \<le> length sd_source_nodes"
proof -
  have c: "list_all (\<lambda>C. C \<in> node_space ` set sd_source_nodes)
             (map (propagate F4) source_combinations)"
    by code_simp
  from source_nodes_diagram_size sd_source_nodes_valid c
  have "7 \<le> length sd_source_nodes" "9 \<le> length sd_source_nodes" by blast+
  with sd_source_nodes_valid c show ?thesis by (intro conjI)
qed

end
